theory Spec2Isabelle
  imports Complex_Main "HOL-Library.Word"
begin

section \<open>Values of the host language\<close>

text \<open>
  The hook \<open>useLiveInterview\<close> and the service function \<open>searchJobs\<close> are TypeScript.
  A byte of a \<open>Uint8Array\<close> or an \<open>ArrayBuffer\<close> is an \<open>8 word\<close>, a buffer is a list
  of bytes. An element of a \<open>Float32Array\<close> is a \<open>number\<close>: a finite value, one of
  the two infinities, or NaN. Finite values are carried as reals. For the
  arithmetic of \<open>floatTo16BitPCM\<close> that is exact: a 32-bit float has a 24-bit
  significand, the two scale factors have at most 16 bits, so the 64-bit product
  is computed without rounding; and every quotient \<open>k / 32768\<close> of a 16-bit integer
  is a 32-bit float. Negative zero behaves as zero everywhere in this program.
  Every exception the code can raise is a value of \<open>js_error\<close>.
\<close>

type_synonym u8 = "8 word"

datatype js_error =
    RangeError
  | InvalidCharacterError
  | NotSupportedError
  | Error string

datatype number = Finite real | PosInfinity | NegInfinity | NaN

text \<open>The operator \<open><\<close> on numbers: false as soon as one side is NaN.\<close>

fun js_less :: "number \<Rightarrow> number \<Rightarrow> bool" where
  "js_less NaN y = False"
| "js_less x NaN = False"
| "js_less (Finite a) (Finite b) = (a < b)"
| "js_less (Finite a) PosInfinity = True"
| "js_less (Finite a) NegInfinity = False"
| "js_less PosInfinity y = False"
| "js_less NegInfinity NegInfinity = False"
| "js_less NegInfinity y = True"

text \<open>\<open>Math.min\<close> and \<open>Math.max\<close> of two arguments: NaN is contagious.\<close>

definition Math_min :: "number \<Rightarrow> number \<Rightarrow> number" where
  "Math_min a b = (if a = NaN \<or> b = NaN then NaN else if js_less b a then b else a)"

definition Math_max :: "number \<Rightarrow> number \<Rightarrow> number" where
  "Math_max a b = (if a = NaN \<or> b = NaN then NaN else if js_less a b then b else a)"

text \<open>The operator \<open>*\<close> with a finite right operand (here always a literal).\<close>

fun js_times :: "number \<Rightarrow> real \<Rightarrow> number" where
  "js_times NaN c = NaN"
| "js_times (Finite a) c = Finite (a * c)"
| "js_times PosInfinity c =
     (if c = 0 then NaN else if 0 < c then PosInfinity else NegInfinity)"
| "js_times NegInfinity c =
     (if c = 0 then NaN else if 0 < c then NegInfinity else PosInfinity)"

text \<open>
  \<open>ToInt16\<close>, the conversion \<open>DataView.setInt16\<close> applies to its value: NaN and the
  infinities give 0, a finite value is truncated toward zero and reduced
  modulo \<open>2^16\<close>.
\<close>

definition js_trunc :: "real \<Rightarrow> int" where
  "js_trunc x = (if x < 0 then \<lceil>x\<rceil> else \<lfloor>x\<rfloor>)"

fun ToInt16 :: "number \<Rightarrow> 16 word" where
  "ToInt16 (Finite x) = word_of_int (js_trunc x)"
| "ToInt16 v = 0"

text \<open>
  \<open>view.setInt16(byteOffset, value, true)\<close> and \<open>view.getInt16(byteOffset, true)\<close>:
  little endian, and a RangeError when the two bytes do not lie inside the buffer.
\<close>

definition setInt16 :: "u8 list \<Rightarrow> nat \<Rightarrow> number \<Rightarrow> js_error + u8 list" where
  "setInt16 view byteOffset v =
     (if length view < byteOffset + 2 then Inl RangeError
      else let w = ToInt16 v
           in Inr (view[byteOffset := ucast w, byteOffset + 1 := ucast (drop_bit 8 w)]))"

definition int16_of_bytes :: "u8 \<Rightarrow> u8 \<Rightarrow> 16 word" where
  "int16_of_bytes lo hi = or (push_bit 8 (ucast hi)) (ucast lo)"

definition getInt16 :: "u8 list \<Rightarrow> nat \<Rightarrow> js_error + int" where
  "getInt16 view byteOffset =
     (if length view < byteOffset + 2 then Inl RangeError
      else Inr (sint (int16_of_bytes (view ! byteOffset) (view ! (byteOffset + 1)))))"

section \<open>PCM codec\<close>

text \<open>
  \<open>floatTo16BitPCM\<close>: a zeroed buffer of \<open>2 * length\<close> bytes, then one \<open>setInt16\<close>
  per sample, the offset advancing by two.
\<close>

definition pcm_scaled :: "number \<Rightarrow> number" where
  "pcm_scaled x =
     (let s = Math_max (Finite (- 1)) (Math_min (Finite 1) x)
      in if js_less s (Finite 0) then js_times s 32768 else js_times s 32767)"

fun pcm_loop :: "number list \<Rightarrow> nat \<Rightarrow> u8 list \<Rightarrow> js_error + u8 list" where
  "pcm_loop [] offset view = Inr view"
| "pcm_loop (x # xs) offset view =
     (case setInt16 view offset (pcm_scaled x) of
        Inl e \<Rightarrow> Inl e
      | Inr view' \<Rightarrow> pcm_loop xs (offset + 2) view')"

definition floatTo16BitPCM :: "number list \<Rightarrow> js_error + u8 list" where
  "floatTo16BitPCM float32Array =
     pcm_loop float32Array 0 (replicate (length float32Array * 2) 0)"

text \<open>The two bytes one pass of the loop writes for a sample.\<close>

definition pcm_bytes :: "number \<Rightarrow> u8 list" where
  "pcm_bytes x = (let w = ToInt16 (pcm_scaled x) in [ucast w, ucast (drop_bit 8 w)])"

text \<open>
  The decoding loop of \<open>onmessage\<close>: \<open>new Float32Array(uint8Array.length / 2)\<close>
  truncates a fractional length (\<open>ToIndex\<close>), so an odd trailing byte is never
  read; then one \<open>getInt16\<close> per sample, divided by 32768.
\<close>

fun decode_loop :: "u8 list \<Rightarrow> nat \<Rightarrow> nat \<Rightarrow> js_error + real list" where
  "decode_loop view i 0 = Inr []"
| "decode_loop view i (Suc k) =
     (case getInt16 view (i * 2) of
        Inl e \<Rightarrow> Inl e
      | Inr v \<Rightarrow>
          (case decode_loop view (i + 1) k of
             Inl e \<Rightarrow> Inl e
           | Inr vs \<Rightarrow> Inr (real_of_int v / 32768 # vs)))"

definition decode_samples :: "u8 list \<Rightarrow> js_error + real list" where
  "decode_samples uint8Array = decode_loop uint8Array 0 (length uint8Array div 2)"


text \<open>
  The encoder as the specification words it: clamp to \<open>[-1, 1]\<close>, scale by 32767
  (non-negative) or 32768 (negative), round, write little endian. The rounding is
  a parameter, so that the code can be compared with either reading.
\<close>

definition round_toward_sign :: "real \<Rightarrow> int" where
  "round_toward_sign x = (if x < 0 then \<lfloor>x\<rfloor> else \<lceil>x\<rceil>)"

definition round_toward_zero :: "real \<Rightarrow> int" where
  "round_toward_zero x = (if x < 0 then \<lceil>x\<rceil> else \<lfloor>x\<rfloor>)"

definition int16_le_bytes :: "int \<Rightarrow> u8 list" where
  "int16_le_bytes k = [word_of_int k, word_of_int (k div 256)]"

definition spec_encode_sample :: "(real \<Rightarrow> int) \<Rightarrow> real \<Rightarrow> u8 list" where
  "spec_encode_sample rnd x =
     (let c = max (- 1) (min 1 x)
      in int16_le_bytes (rnd (if 0 \<le> c then c * 32767 else c * 32768)))"

definition spec_encode :: "(real \<Rightarrow> int) \<Rightarrow> real list \<Rightarrow> u8 list" where
  "spec_encode rnd samples = concat (map (spec_encode_sample rnd) samples)"

section \<open>Frame transport: base64\<close>

text \<open>
  A string is a list of code units, here all below 256: the binary strings are
  built from bytes, and in the text handed to \<open>atob\<close> a code unit of 256 or more
  would be refused like any other character outside the alphabet.
  \<open>btoa\<close> and \<open>atob\<close> are the host's functions, written out after their standard:
  \<open>btoa\<close> is base64 with padding and no line breaks; \<open>atob\<close> is the forgiving
  decoder (white space removed, one or two trailing \<open>=\<close> removed when the length
  is a multiple of four, a remainder of one or a foreign character refused,
  left-over bits of the last group discarded).
\<close>

definition base64_alphabet :: string where
  "base64_alphabet = ''ABCDEFGHIJKLMNOPQRSTUVWXYZabcdefghijklmnopqrstuvwxyz0123456789+/''"

definition base64_char :: "nat \<Rightarrow> char" where
  "base64_char n = base64_alphabet ! (n mod 64)"

fun index_of :: "'a \<Rightarrow> 'a list \<Rightarrow> nat option" where
  "index_of c [] = None"
| "index_of c (x # xs) = (if c = x then Some 0 else map_option Suc (index_of c xs))"

definition base64_index :: "char \<Rightarrow> nat option" where
  "base64_index c = index_of c base64_alphabet"

fun btoa_groups :: "nat list \<Rightarrow> string" where
  "btoa_groups (a # b # c # rest) =
     [base64_char (a div 4), base64_char (a mod 4 * 16 + b div 16),
      base64_char (b mod 16 * 4 + c div 64), base64_char (c mod 64)] @ btoa_groups rest"
| "btoa_groups [a, b] =
     [base64_char (a div 4), base64_char (a mod 4 * 16 + b div 16),
      base64_char (b mod 16 * 4), CHR ''='']"
| "btoa_groups [a] =
     [base64_char (a div 4), base64_char (a mod 4 * 16), CHR ''='', CHR ''='']"
| "btoa_groups [] = []"

definition btoa :: "string \<Rightarrow> string" where
  "btoa binary = btoa_groups (map of_char binary)"

text \<open>
  What \<open>btoa\<close> produces, taken apart: the six-bit groups of a byte sequence, and
  the padding that follows their characters.
\<close>

fun sextets :: "nat list \<Rightarrow> nat list" where
  "sextets (a # b # c # rest) =
     [a div 4, a mod 4 * 16 + b div 16, b mod 16 * 4 + c div 64, c mod 64] @ sextets rest"
| "sextets [a, b] = [a div 4, a mod 4 * 16 + b div 16, b mod 16 * 4]"
| "sextets [a] = [a div 4, a mod 4 * 16]"
| "sextets [] = []"

definition padding :: "nat \<Rightarrow> string" where
  "padding n = replicate ((3 - n mod 3) mod 3) (CHR ''='')"

definition is_ascii_whitespace :: "char \<Rightarrow> bool" where
  "is_ascii_whitespace c = (of_char c \<in> {9, 10, 12, 13, 32 :: nat})"

definition strip_padding :: "string \<Rightarrow> string" where
  "strip_padding d =
     (if d \<noteq> [] \<and> last d = CHR ''='' then
        (let d' = butlast d
         in if d' \<noteq> [] \<and> last d' = CHR ''='' then butlast d' else d')
      else d)"

fun atob_groups :: "nat list \<Rightarrow> nat list" where
  "atob_groups (p # q # r # s # rest) =
     (let n = ((p * 64 + q) * 64 + r) * 64 + s
      in [n div 65536, n div 256 mod 256, n mod 256]) @ atob_groups rest"
| "atob_groups [p, q, r] =
     (let n = ((p * 64 + q) * 64 + r) div 4 in [n div 256, n mod 256])"
| "atob_groups [p, q] = [(p * 64 + q) div 16]"
| "atob_groups rest = []"

definition atob :: "string \<Rightarrow> js_error + string" where
  "atob data =
     (let d = filter (\<lambda>c. \<not> is_ascii_whitespace c) data;
          d = (if length d mod 4 = 0 then strip_padding d else d)
      in if length d mod 4 = 1 then Inl InvalidCharacterError
         else (case those (map base64_index d) of
                 None \<Rightarrow> Inl InvalidCharacterError
               | Some groups \<Rightarrow> Inr (map char_of (atob_groups groups))))"

text \<open>
  \<open>base64ToUint8Array\<close>: \<open>atob\<close>, then one byte per code unit. The outbound
  direction is the loop of \<open>onaudioprocess\<close>: one \<open>String.fromCharCode\<close> per
  byte, then \<open>btoa\<close>.
\<close>

definition base64ToUint8Array :: "string \<Rightarrow> js_error + u8 list" where
  "base64ToUint8Array base64 =
     (case atob base64 of
        Inl e \<Rightarrow> Inl e
      | Inr binaryString \<Rightarrow> Inr (map (\<lambda>c. word_of_nat (of_char c)) binaryString))"

definition uint8ArrayToBase64 :: "u8 list \<Rightarrow> string" where
  "uint8ArrayToBase64 bytes = btoa (map (\<lambda>b. char_of (unat b)) bytes)"

definition onaudioprocess :: "number list \<Rightarrow> js_error + string" where
  "onaudioprocess inputData =
     (case floatTo16BitPCM inputData of
        Inl e \<Rightarrow> Inl e
      | Inr pcmData \<Rightarrow> Inr (uint8ArrayToBase64 pcmData))"


section \<open>The interview session\<close>

text \<open>
  The state of one mounted \<open>useLiveInterview\<close>: the four React state cells, the six
  refs, and what the hook holds of the page and the browser. Browser objects
  (audio contexts, nodes, streams, sessions, timers) are identified by numbers
  drawn from \<open>nextId\<close>. \<open>openContexts\<close> are the 24 kHz output contexts not yet
  closed, \<open>inputContexts\<close> the 16 kHz capture contexts, \<open>connectedNodes\<close> the
  capture nodes still wired, \<open>liveStreams\<close> the media streams whose tracks run,
  \<open>sessions\<close> the connections opened by \<open>ai.live.connect\<close> (with the script
  processor each one's callbacks close over) that have not ended, \<open>capturing\<close> the
  processors with an \<open>onaudioprocess\<close> handler, \<open>activeTimers\<close> the running
  intervals, \<open>scheduled\<close> every \<open>source.start\<close> so far: context, start time,
  samples. Times are seconds on the clock of the output context, carried as reals.
\<close>

record state =
  isConnected :: bool
  isSpeaking :: bool
  error :: "string option"
  logs :: "string list"
  audioContextRef :: "nat option"
  inputSourceRef :: "nat option"
  processorRef :: "nat option"
  sessionRef :: "nat option"
  nextStartTimeRef :: real
  videoIntervalRef :: "nat option"
  videoElement :: bool
  srcObject :: "nat option"
  openContexts :: "nat set"
  inputContexts :: "nat set"
  connectedNodes :: "nat set"
  liveStreams :: "nat set"
  sessions :: "(nat \<times> nat) list"
  capturing :: "nat set"
  activeTimers :: "nat set"
  scheduled :: "(nat \<times> real \<times> real list) list"
  nextId :: nat

text \<open>The hook as first rendered; the argument says whether \<open>videoRef.current\<close> is set.\<close>

definition initial_state :: "bool \<Rightarrow> state" where
  "initial_state video =
     \<lparr>isConnected = False, isSpeaking = False, error = None, logs = [],
      audioContextRef = None, inputSourceRef = None, processorRef = None,
      sessionRef = None, nextStartTimeRef = 0, videoIntervalRef = None,
      videoElement = video, srcObject = None, openContexts = {}, inputContexts = {},
      connectedNodes = {}, liveStreams = {}, sessions = [], capturing = {},
      activeTimers = {}, scheduled = [], nextId = 1\<rparr>"

text \<open>
  \<open>connect\<close>. Its arguments are what the environment answers: the configured API
  key and what \<open>getUserMedia\<close> settles to (a rejection carries its message). The
  body runs to its end as one step. There is no test of the current state
  anywhere in it.
\<close>

datatype media_result = Granted | Rejected string

definition connect :: "string option \<Rightarrow> media_result \<Rightarrow> state \<Rightarrow> state" where
  "connect apiKey media s0 =
     (let s1 = s0\<lparr>error := None\<rparr>
      in if apiKey = None \<or> apiKey = Some []
         then s1\<lparr>error := Some ''API Key missing'', isConnected := False\<rparr>
         else
           let ctx = nextId s1;
               s2 = s1\<lparr>audioContextRef := Some ctx,
                       openContexts := insert ctx (openContexts s1),
                       nextId := ctx + 1\<rparr>
           in case media of
                Rejected msg \<Rightarrow> s2\<lparr>error := Some msg, isConnected := False\<rparr>
              | Granted \<Rightarrow>
                  let stream = nextId s2;
                      inputContext = stream + 1;
                      source = stream + 2;
                      processor = stream + 3;
                      session = stream + 4
                  in s2\<lparr>liveStreams := insert stream (liveStreams s2),
                         inputContexts := insert inputContext (inputContexts s2),
                         inputSourceRef := Some source,
                         processorRef := Some processor,
                         connectedNodes := insert source (insert processor (connectedNodes s2)),
                         srcObject := (if videoElement s2 then Some stream else srcObject s2),
                         sessions := sessions s2 @ [(session, processor)],
                         sessionRef := Some session,
                         nextId := stream + 5\<rparr>)"

text \<open>The callbacks of a session. \<open>onopen\<close> installs the capture handler and the timer.\<close>

definition onopen :: "nat \<Rightarrow> state \<Rightarrow> state" where
  "onopen session s =
     (case map_of (sessions s) session of
        None \<Rightarrow> s
      | Some processor \<Rightarrow>
          let timer = nextId s
          in s\<lparr>isConnected := True,
                logs := logs s @ [''Connected to Interviewer''],
                capturing := insert processor (capturing s),
                activeTimers := insert timer (activeTimers s),
                videoIntervalRef := Some timer,
                nextId := timer + 1\<rparr>)"

text \<open>
  \<open>audioCtx.createBuffer(1, length, 24000)\<close>: a NotSupportedError for a length of
  zero; otherwise a buffer whose \<open>duration\<close> is \<open>length / sampleRate\<close>.
\<close>

definition createBuffer :: "nat \<Rightarrow> nat \<Rightarrow> js_error + real" where
  "createBuffer len sampleRate =
     (if len = 0 then Inl NotSupportedError else Inr (real len / real sampleRate))"

text \<open>
  \<open>onmessage\<close>. \<open>audioData\<close> is what the optional chain
  \<open>msg.serverContent?.modelTurn?.parts?.[0]?.inlineData?.data\<close> yields (\<open>None\<close> for
  undefined), \<open>now\<close> is \<open>audioCtx.currentTime\<close>. The handler is an async function:
  an exception inside it rejects its promise and leaves the state as it was when
  thrown; the outcome says which way the handler went.
\<close>

datatype outcome = Ignored | NoAudioContext | Threw js_error | Scheduled real

definition onmessage :: "string option \<Rightarrow> real \<Rightarrow> state \<Rightarrow> outcome \<times> state" where
  "onmessage audioData now s0 =
     (case audioData of
        None \<Rightarrow> (Ignored, s0)
      | Some data \<Rightarrow>
          if data = [] then (Ignored, s0)
          else
            let s1 = s0\<lparr>isSpeaking := True\<rparr>
            in case audioContextRef s1 of
                 None \<Rightarrow> (NoAudioContext, s1)
               | Some audioCtx \<Rightarrow>
                   (case base64ToUint8Array data of
                      Inl e \<Rightarrow> (Threw e, s1)
                    | Inr uint8Array \<Rightarrow>
                        (case decode_samples uint8Array of
                           Inl e \<Rightarrow> (Threw e, s1)
                         | Inr float32Array \<Rightarrow>
                             (case createBuffer (length float32Array) 24000 of
                                Inl e \<Rightarrow> (Threw e, s1)
                              | Inr duration \<Rightarrow>
                                  let startTime = max now (nextStartTimeRef s1)
                                  in (Scheduled startTime,
                                      s1\<lparr>scheduled := scheduled s1 @ [(audioCtx, startTime, float32Array)],
                                         nextStartTimeRef := startTime + duration\<rparr>)))))"

text \<open>\<open>source.onended\<close>, with the clock of the context the source plays on.\<close>

definition onended :: "real \<Rightarrow> state \<Rightarrow> state" where
  "onended now s = (if nextStartTimeRef s \<le> now then s\<lparr>isSpeaking := False\<rparr> else s)"

text \<open>\<open>onclose\<close> of a session; that the connection has ended is the browser's part.\<close>

definition onclose :: "nat \<Rightarrow> state \<Rightarrow> state" where
  "onclose session s =
     s\<lparr>isConnected := False,
       logs := logs s @ [''Connection closed''],
       sessions := filter (\<lambda>p. fst p \<noteq> session) (sessions s)\<rparr>"

definition onerror :: "state \<Rightarrow> state" where
  "onerror s = s\<lparr>error := Some ''Connection error occurred'', isConnected := False\<rparr>"

text \<open>
  \<open>disconnect\<close>, one helper for each guarded call of its body. Each ref is tested
  and used, none is cleared; the session is not closed. \<open>AudioNode.disconnect()\<close>, \<open>clearInterval\<close> and \<open>track.stop()\<close> do
  nothing on an object already disconnected, cleared or stopped; \<open>close()\<close> on a
  closed context returns a promise, which the code drops. A timer handle is a
  positive number, so the test of \<open>videoIntervalRef.current\<close> is the test for a
  handle.
\<close>

definition disconnect_node :: "nat option \<Rightarrow> state \<Rightarrow> state" where
  "disconnect_node ref s =
     (case ref of None \<Rightarrow> s | Some n \<Rightarrow> s\<lparr>connectedNodes := connectedNodes s - {n}\<rparr>)"

definition close_context :: "nat option \<Rightarrow> state \<Rightarrow> state" where
  "close_context ref s =
     (case ref of None \<Rightarrow> s | Some c \<Rightarrow> s\<lparr>openContexts := openContexts s - {c}\<rparr>)"

definition clear_interval :: "nat option \<Rightarrow> state \<Rightarrow> state" where
  "clear_interval ref s =
     (case ref of None \<Rightarrow> s | Some t \<Rightarrow> s\<lparr>activeTimers := activeTimers s - {t}\<rparr>)"

definition stop_tracks :: "state \<Rightarrow> state" where
  "stop_tracks s =
     (if videoElement s then
        (case srcObject s of
           None \<Rightarrow> s
         | Some stream \<Rightarrow> s\<lparr>liveStreams := liveStreams s - {stream}, srcObject := None\<rparr>)
      else s)"

definition disconnect :: "state \<Rightarrow> state" where
  "disconnect s0 =
     (let s1 = disconnect_node (inputSourceRef s0) s0;
          s2 = disconnect_node (processorRef s1) s1;
          s3 = close_context (audioContextRef s2) s2;
          s4 = clear_interval (videoIntervalRef s3) s3;
          s5 = stop_tracks s4
      in s5\<lparr>isConnected := False, isSpeaking := False, nextStartTimeRef := 0\<rparr>)"

text \<open>Everything that can happen to the hook, and a run of such events in order.\<close>

datatype event =
    Connect "string option" media_result
  | OnOpen nat
  | OnMessage "string option" real
  | OnEnded real
  | OnClose nat
  | OnError
  | Disconnect

fun step :: "event \<Rightarrow> state \<Rightarrow> state" where
  "step (Connect apiKey media) s = connect apiKey media s"
| "step (OnOpen session) s = onopen session s"
| "step (OnMessage audioData now) s = snd (onmessage audioData now s)"
| "step (OnEnded now) s = onended now s"
| "step (OnClose session) s = onclose session s"
| "step OnError s = onerror s"
| "step Disconnect s = disconnect s"

fun run :: "event list \<Rightarrow> state \<Rightarrow> state" where
  "run [] s = s"
| "run (e # es) s = run es (step e s)"

text \<open>
  A session just opened: from the first render with a video element, one \<open>connect\<close>
  with a key and granted media, then \<open>onopen\<close> of the session it created.
\<close>

definition opened_session :: state where
  "opened_session = run [Connect (Some ''key'') Granted, OnOpen 6] (initial_state True)"


section \<open>Job search\<close>













section \<open>Properties of the PCM codec\<close>

lemma int16_of_bytes_split: "int16_of_bytes (ucast w) (ucast (drop_bit 8 w)) = (w :: 16 word)"
  unfolding int16_of_bytes_def
  by (rule bit_word_eqI) (auto simp: bit_simps)

lemma pcm_scaled_Finite:
  "pcm_scaled (Finite x) =
     Finite (if max (- 1) (min 1 x) < 0 then max (- 1) (min 1 x) * 32768 else max (- 1) (min 1 x) * 32767)"
  by (simp add: pcm_scaled_def Math_min_def Math_max_def Let_def min_def max_def)

lemma pcm_scaled_special:
  "pcm_scaled PosInfinity = Finite 32767"
  "pcm_scaled NegInfinity = Finite (- 32768)"
  "pcm_scaled NaN = NaN"
  by (simp_all add: pcm_scaled_def Math_min_def Math_max_def Let_def)

lemma pcm_loop_eq:
  "offset + 2 * length xs \<le> length view \<Longrightarrow>
   pcm_loop xs offset view =
     Inr (take offset view @ concat (map pcm_bytes xs) @ drop (offset + 2 * length xs) view)"
proof (induction xs arbitrary: offset view)
  case Nil
  then show ?case by simp
next
  case (Cons x xs)
  let ?w = "ToInt16 (pcm_scaled x)"
  let ?view' = "view[offset := ucast ?w, offset + 1 := ucast (drop_bit 8 ?w)]"
  have len: "offset + 2 \<le> length view" using Cons.prems by simp
  have set: "setInt16 view offset (pcm_scaled x) = Inr ?view'"
    using len by (simp add: setInt16_def Let_def)
  have ih: "pcm_loop xs (offset + 2) ?view' =
     Inr (take (offset + 2) ?view' @ concat (map pcm_bytes xs) @ drop (offset + 2 + 2 * length xs) ?view')"
    by (rule Cons.IH) (use Cons.prems in simp)
  have tk: "take (offset + 2) ?view' = take offset view @ pcm_bytes x"
    using len
    by (simp add: pcm_bytes_def Let_def take_Suc_conv_app_nth numeral_2_eq_2)
  have dr: "drop (offset + 2 + 2 * length xs) ?view' = drop (offset + 2 * length (x # xs)) view"
    by (simp add: add.commute add.left_commute)
  have "pcm_loop (x # xs) offset view = pcm_loop xs (offset + 2) ?view'"
    by (simp only: pcm_loop.simps set sum.case)
  also have "\<dots> = Inr ((take offset view @ pcm_bytes x) @ concat (map pcm_bytes xs) @
      drop (offset + 2 * length (x # xs)) view)"
    by (simp only: ih tk dr)
  finally show ?case by simp
qed

lemma floatTo16BitPCM_eq: "floatTo16BitPCM xs = Inr (concat (map pcm_bytes xs))"
  by (simp add: floatTo16BitPCM_def pcm_loop_eq mult.commute)

lemma decode_loop_eq:
  "length pre = 2 * i \<Longrightarrow>
   decode_loop (pre @ concat (map pcm_bytes xs) @ post) i (length xs) =
     Inr (map (\<lambda>x. real_of_int (sint (ToInt16 (pcm_scaled x))) / 32768) xs)"
proof (induction xs arbitrary: pre i)
  case Nil
  then show ?case by simp
next
  case (Cons x xs)
  let ?w = "ToInt16 (pcm_scaled x)"
  let ?view = "pre @ concat (map pcm_bytes (x # xs)) @ post"
  have g: "getInt16 ?view (i * 2) = Inr (sint ?w)"
    using Cons.prems
    by (simp add: getInt16_def pcm_bytes_def Let_def nth_append int16_of_bytes_split mult.commute)
  have v: "?view = (pre @ pcm_bytes x) @ concat (map pcm_bytes xs) @ post"
    by simp
  have ih: "decode_loop ((pre @ pcm_bytes x) @ concat (map pcm_bytes xs) @ post) (i + 1) (length xs) =
     Inr (map (\<lambda>x. real_of_int (sint (ToInt16 (pcm_scaled x))) / 32768) xs)"
    by (rule Cons.IH) (use Cons.prems in \<open>simp add: pcm_bytes_def Let_def\<close>)
  show ?case
    using g ih unfolding v by simp
qed

lemma length_concat_pcm_bytes: "length (concat (map pcm_bytes xs)) = 2 * length xs"
  by (induction xs) (simp_all add: pcm_bytes_def Let_def)

lemma decode_encode:
  "decode_samples (concat (map pcm_bytes xs)) =
     Inr (map (\<lambda>x. real_of_int (sint (ToInt16 (pcm_scaled x))) / 32768) xs)"
  using decode_loop_eq [of "[]" 0 xs "[]"]
  by (simp add: decode_samples_def length_concat_pcm_bytes)

lemma sint_word16_of_int:
  "- 32768 \<le> k \<Longrightarrow> k \<le> 32767 \<Longrightarrow> sint (word_of_int k :: 16 word) = k"
  by (simp add: sint_sbintrunc' signed_take_bit_int_eq_self)

lemma js_trunc_bounds:
  "- 32768 \<le> v \<Longrightarrow> v \<le> 32767 \<Longrightarrow> - 32768 \<le> js_trunc v \<and> js_trunc v \<le> 32767"
  unfolding js_trunc_def by (auto simp: le_floor_iff ceiling_le_iff floor_le_iff le_ceiling_iff)

lemma pcm_scaled_range:
  "pcm_scaled x = Finite v \<Longrightarrow> - 32768 \<le> v \<and> v \<le> 32767"
  by (cases x) (auto simp: pcm_scaled_Finite pcm_scaled_special min_def max_def split: if_splits)


lemma nth_concat_pcm_bytes:
  "i < length xs \<Longrightarrow>
   concat (map pcm_bytes xs) ! (2 * i) = ucast (ToInt16 (pcm_scaled (xs ! i))) \<and>
   concat (map pcm_bytes xs) ! (2 * i + 1) = ucast (drop_bit 8 (ToInt16 (pcm_scaled (xs ! i))))"
proof (induction xs arbitrary: i)
  case Nil
  then show ?case by simp
next
  case (Cons x xs)
  show ?case
  proof (cases i)
    case 0
    then show ?thesis by (simp add: pcm_bytes_def Let_def)
  next
    case (Suc j)
    with Cons.prems have "j < length xs" by simp
    from Cons.IH [OF this] show ?thesis
      using Suc by (simp add: pcm_bytes_def Let_def)
  qed
qed

lemma getInt16_concat_pcm_bytes:
  assumes "i < length xs"
  shows "getInt16 (concat (map pcm_bytes xs)) (2 * i) = Inr (sint (ToInt16 (pcm_scaled (xs ! i))))"
proof -
  have "\<not> length (concat (map pcm_bytes xs)) < 2 * i + 2"
    using assms by (simp add: length_concat_pcm_bytes)
  then show ?thesis
    using nth_concat_pcm_bytes [OF assms]
    by (simp add: getInt16_def int16_of_bytes_split)
qed

lemma ucast_word_of_int_16_8: "ucast (word_of_int k :: 16 word) = (word_of_int k :: 8 word)"
  by (rule bit_word_eqI) (auto simp: bit_simps)

lemma ucast_drop_bit_word_of_int_16_8:
  "ucast (drop_bit 8 (word_of_int k :: 16 word)) = (word_of_int (k div 256) :: 8 word)"
proof -
  have "k div 256 = drop_bit 8 k" by (simp add: drop_bit_eq_div)
  then show ?thesis
    by (simp only:) (rule bit_word_eqI, auto simp: bit_simps)
qed

lemma js_trunc_eq: "js_trunc = round_toward_zero"
  by (rule ext) (simp add: js_trunc_def round_toward_zero_def)

lemma pcm_bytes_Finite: "pcm_bytes (Finite x) = spec_encode_sample round_toward_zero x"
proof -
  define c where "c = max (- 1) (min 1 x)"
  have v: "(if c < 0 then c * 32768 else c * 32767) = (if 0 \<le> c then c * 32767 else c * 32768)"
    by auto
  have "pcm_scaled (Finite x) = Finite (if 0 \<le> c then c * 32767 else c * 32768)"
    unfolding pcm_scaled_Finite c_def [symmetric] v ..
  then have "pcm_bytes (Finite x) =
      int16_le_bytes (round_toward_zero (if 0 \<le> c then c * 32767 else c * 32768))"
    by (simp only: pcm_bytes_def Let_def ToInt16.simps js_trunc_eq int16_le_bytes_def
        ucast_word_of_int_16_8 ucast_drop_bit_word_of_int_16_8)
  then show ?thesis
    by (simp only: spec_encode_sample_def Let_def c_def)
qed


text \<open>
  C6 (as amended). On every list of finite samples \<open>floatTo16BitPCM\<close> returns, without
  an exception, the buffer the specification describes when its rounding is read as
  rounding toward zero: each sample is clamped to \<open>[-1, 1]\<close>, scaled by 32767 when the
  clamped value is non-negative and by 32768 when it is negative, truncated, and
  written as a signed 16-bit little-endian integer. The result is a function of the
  input alone.
\<close>

theorem floatTo16BitPCM_truncates:
  "floatTo16BitPCM (map Finite samples) = Inr (spec_encode round_toward_zero samples)"
  by (simp add: floatTo16BitPCM_eq spec_encode_def comp_def pcm_bytes_Finite)

text \<open>The samples 0.5, -0.3 and 2 give 16383, -9830 and 32767.\<close>

theorem floatTo16BitPCM_truncates_witness:
  "floatTo16BitPCM (map Finite [1 / 2, - 3 / 10, 2]) = Inr [255, 63, 154, 217, 255, 127]"
proof -
  have "spec_encode round_toward_zero [1 / 2, - 3 / 10, 2] = [255, 63, 154, 217, 255, 127]"
    by code_simp
  with floatTo16BitPCM_truncates [of "[1 / 2, - 3 / 10, 2]"] show ?thesis by simp
qed

text \<open>
  C6 as stated, with the rounding toward the sign of the sample (away from zero):
  the sample 0.5 scales to 16383.5, the code writes 16383 (bytes FF 3F), rounding
  toward the sign would write 16384 (bytes 00 40).
\<close>

theorem floatTo16BitPCM_round_toward_sign_counterexample:
  "floatTo16BitPCM (map Finite [1 / 2]) = Inr [255, 63] \<and>
   spec_encode round_toward_sign [1 / 2] = [0, 64] \<and>
   floatTo16BitPCM (map Finite [1 / 2]) \<noteq> Inr (spec_encode round_toward_sign [1 / 2])"
  by code_simp

lemma pcm_scaled_cases:
  "(case pcm_scaled x of
      Finite v \<Rightarrow> - 32768 \<le> v \<and> v \<le> 32767
    | NaN \<Rightarrow> True
    | _ \<Rightarrow> False)"
  by (cases x) (auto simp: pcm_scaled_Finite pcm_scaled_special min_def max_def)

lemma sint_ToInt16_pcm_scaled:
  "(case pcm_scaled x of
      Finite v \<Rightarrow> - 32768 \<le> v \<and> v \<le> 32767 \<and> sint (ToInt16 (pcm_scaled x)) = js_trunc v
    | NaN \<Rightarrow> sint (ToInt16 (pcm_scaled x)) = 0
    | _ \<Rightarrow> False)"
proof (cases "pcm_scaled x")
  case (Finite v)
  then have r: "- 32768 \<le> v \<and> v \<le> 32767" by (rule pcm_scaled_range)
  then have "- 32768 \<le> js_trunc v \<and> js_trunc v \<le> 32767"
    by (simp add: js_trunc_bounds)
  then have "sint (word_of_int (js_trunc v) :: 16 word) = js_trunc v"
    by (simp add: sint_word16_of_int)
  with r Finite show ?thesis by simp
next
  case NaN
  then show ?thesis by simp
next
  case PosInfinity
  with pcm_scaled_cases [of x] show ?thesis by simp
next
  case NegInfinity
  with pcm_scaled_cases [of x] show ?thesis by simp
qed

text \<open>
  C9. For every array of \<open>n\<close> numbers, finite or not, inside \<open>[-1, 1]\<close> or not,
  \<open>floatTo16BitPCM\<close> returns a buffer of exactly \<open>2 * n\<close> bytes and raises nothing. The
  value handed to \<open>setInt16\<close> for a sample is NaN (stored as 0) or a finite value in
  \<open>[-32768, 32767]\<close>, never an infinity; the 16-bit integer read back at the sample's
  offset is its truncation, so nothing wraps around.
\<close>

theorem floatTo16BitPCM_total:
  "\<exists>bytes. floatTo16BitPCM float32Array = Inr bytes \<and>
     length bytes = 2 * length float32Array \<and>
     (\<forall>i < length float32Array. \<exists>k.
        getInt16 bytes (2 * i) = Inr k \<and> - 32768 \<le> k \<and> k \<le> 32767 \<and>
        (case pcm_scaled (float32Array ! i) of
           Finite v \<Rightarrow> - 32768 \<le> v \<and> v \<le> 32767 \<and> k = js_trunc v
         | NaN \<Rightarrow> k = 0
         | _ \<Rightarrow> False))"
proof -
  let ?bytes = "concat (map pcm_bytes float32Array)"
  have "\<exists>k. getInt16 ?bytes (2 * i) = Inr k \<and> - 32768 \<le> k \<and> k \<le> 32767 \<and>
        (case pcm_scaled (float32Array ! i) of
           Finite v \<Rightarrow> - 32768 \<le> v \<and> v \<le> 32767 \<and> k = js_trunc v
         | NaN \<Rightarrow> k = 0
         | _ \<Rightarrow> False)" if "i < length float32Array" for i
  proof -
    let ?k = "sint (ToInt16 (pcm_scaled (float32Array ! i)))"
    have g: "getInt16 ?bytes (2 * i) = Inr ?k"
      using that by (rule getInt16_concat_pcm_bytes)
    have c: "(case pcm_scaled (float32Array ! i) of
           Finite v \<Rightarrow> - 32768 \<le> v \<and> v \<le> 32767 \<and> ?k = js_trunc v
         | NaN \<Rightarrow> ?k = 0
         | _ \<Rightarrow> False)"
      by (rule sint_ToInt16_pcm_scaled)
    have b: "- 32768 \<le> ?k \<and> ?k \<le> 32767"
      using c by (cases "pcm_scaled (float32Array ! i)") (simp_all add: js_trunc_bounds)
    from g c b show ?thesis by blast
  qed
  then show ?thesis
    by (intro exI [of _ ?bytes]) (simp add: floatTo16BitPCM_eq length_concat_pcm_bytes)
qed

text \<open>The array \<open>[3, NaN, -Infinity, -0.5]\<close> is stored as 32767, 0, -32768, -16384.\<close>

theorem floatTo16BitPCM_total_witness:
  "floatTo16BitPCM [Finite 3, NaN, NegInfinity, Finite (- 1 / 2)] = Inr [255, 127, 0, 0, 0, 128, 0, 192] \<and>
   length [255, 127, 0, 0, 0, 128, 0, 192 :: u8] = 2 * length [Finite 3, NaN, NegInfinity, Finite (- 1 / 2)] \<and>
   getInt16 [255, 127, 0, 0, 0, 128, 0, 192] 0 = Inr 32767 \<and>
   getInt16 [255, 127, 0, 0, 0, 128, 0, 192] 2 = Inr 0 \<and>
   getInt16 [255, 127, 0, 0, 0, 128, 0, 192] 4 = Inr (- 32768) \<and>
   getInt16 [255, 127, 0, 0, 0, 128, 0, 192] 6 = Inr (- 16384)"
proof -
  from floatTo16BitPCM_total [of "[Finite 3, NaN, NegInfinity, Finite (- 1 / 2)]"]
  obtain bytes where
    b: "floatTo16BitPCM [Finite 3, NaN, NegInfinity, Finite (- 1 / 2)] = Inr bytes"
    and l: "length bytes = 2 * length [Finite 3, NaN, NegInfinity, Finite (- 1 / 2)]"
    by blast
  have e: "floatTo16BitPCM [Finite 3, NaN, NegInfinity, Finite (- 1 / 2)] =
      Inr [255, 127, 0, 0, 0, 128, 0, 192]"
    by code_simp
  have g: "getInt16 [255, 127, 0, 0, 0, 128, 0, 192] 0 = Inr 32767 \<and>
   getInt16 [255, 127, 0, 0, 0, 128, 0, 192] 2 = Inr 0 \<and>
   getInt16 [255, 127, 0, 0, 0, 128, 0, 192] 4 = Inr (- 32768) \<and>
   getInt16 [255, 127, 0, 0, 0, 128, 0, 192] 6 = Inr (- 16384)"
    by code_simp
  from b e have "bytes = [255, 127, 0, 0, 0, 128, 0, 192]" by simp
  with l e g show ?thesis by simp
qed


lemma round_trip_sample:
  assumes "- 1 \<le> x" "x \<le> 1"
  shows "\<bar>real_of_int (sint (ToInt16 (pcm_scaled (Finite x)))) / 32768 - x\<bar> < (1 + max 0 x) / 32768"
proof -
  define v where "v = (if x < 0 then x * 32768 else x * 32767)"
  have s: "pcm_scaled (Finite x) = Finite v"
    using assms by (simp add: pcm_scaled_Finite v_def min_def max_def)
  have r: "- 32768 \<le> v \<and> v \<le> 32767"
    using s by (rule pcm_scaled_range)
  then have "- 32768 \<le> js_trunc v \<and> js_trunc v \<le> 32767"
    by (simp add: js_trunc_bounds)
  then have k: "sint (ToInt16 (pcm_scaled (Finite x))) = js_trunc v"
    by (simp add: s sint_word16_of_int)
  define y where "y = real_of_int (js_trunc v) / 32768"
  have y: "real_of_int (js_trunc v) = y * 32768"
    by (simp add: y_def)
  have "\<bar>y - x\<bar> < (1 + max 0 x) / 32768"
  proof (cases "x < 0")
    case True
    then have "js_trunc v = \<lceil>x * 32768\<rceil>"
      by (simp add: js_trunc_def v_def)
    moreover have "x * 32768 \<le> real_of_int \<lceil>x * 32768\<rceil>"
      and "real_of_int \<lceil>x * 32768\<rceil> < x * 32768 + 1"
      by linarith+
    ultimately have "x * 32768 \<le> y * 32768" and "y * 32768 < x * 32768 + 1"
      using y by linarith+
    with True show ?thesis by (simp add: max_def abs_less_iff)
  next
    case False
    then have "js_trunc v = \<lfloor>x * 32767\<rfloor>"
      by (simp add: js_trunc_def v_def)
    moreover have "real_of_int \<lfloor>x * 32767\<rfloor> \<le> x * 32767"
      and "x * 32767 - 1 < real_of_int \<lfloor>x * 32767\<rfloor>"
      by linarith+
    ultimately have "y * 32768 \<le> x * 32767" and "x * 32767 - 1 < y * 32768"
      using y by linarith+
    with False show ?thesis by (simp add: max_def abs_less_iff)
  qed
  then show ?thesis
    unfolding k y_def .
qed

text \<open>
  C7 (as amended). For samples in \<open>[-1, 1]\<close>, encoding and then decoding succeeds and
  keeps the length; each decoded sample differs from the original by less than
  \<open>(1 + max 0 s) / 32768\<close>, hence by less than \<open>2 / 32768\<close>, and by less than
  \<open>1 / 32768\<close> when the sample is not positive.
\<close>

theorem pcm_round_trip:
  assumes "\<forall>x \<in> set samples. - 1 \<le> x \<and> x \<le> 1"
  shows "\<exists>bytes decoded.
     floatTo16BitPCM (map Finite samples) = Inr bytes \<and>
     decode_samples bytes = Inr decoded \<and>
     length decoded = length samples \<and>
     (\<forall>i < length samples.
        \<bar>decoded ! i - samples ! i\<bar> < (1 + max 0 (samples ! i)) / 32768 \<and>
        \<bar>decoded ! i - samples ! i\<bar> < 2 / 32768 \<and>
        (samples ! i \<le> 0 \<longrightarrow> \<bar>decoded ! i - samples ! i\<bar> < 1 / 32768))"
proof -
  let ?bytes = "concat (map pcm_bytes (map Finite samples))"
  let ?decoded = "map (\<lambda>x. real_of_int (sint (ToInt16 (pcm_scaled x))) / 32768) (map Finite samples)"
  have b: "floatTo16BitPCM (map Finite samples) = Inr ?bytes"
    by (rule floatTo16BitPCM_eq)
  have d: "decode_samples ?bytes = Inr ?decoded"
    by (rule decode_encode)
  have "\<bar>?decoded ! i - samples ! i\<bar> < (1 + max 0 (samples ! i)) / 32768 \<and>
        \<bar>?decoded ! i - samples ! i\<bar> < 2 / 32768 \<and>
        (samples ! i \<le> 0 \<longrightarrow> \<bar>?decoded ! i - samples ! i\<bar> < 1 / 32768)"
    if "i < length samples" for i
  proof -
    from that assms have x: "- 1 \<le> samples ! i" "samples ! i \<le> 1"
      by (simp_all add: nth_mem)
    have e: "?decoded ! i = real_of_int (sint (ToInt16 (pcm_scaled (Finite (samples ! i))))) / 32768"
      using that by simp
    from round_trip_sample [OF x]
    have m: "\<bar>?decoded ! i - samples ! i\<bar> < (1 + max 0 (samples ! i)) / 32768"
      unfolding e .
    from m x show ?thesis by (auto simp: max_def split: if_splits)
  qed
  with b d show ?thesis
    by (intro exI [of _ ?bytes] exI [of _ ?decoded]) simp
qed

text \<open>The samples 65535/65536, -0.5 and 1 come back as 32766/32768, -0.5 and 32767/32768.\<close>

theorem pcm_round_trip_witness:
  "floatTo16BitPCM (map Finite [65535 / 65536, - 1 / 2, 1]) = Inr [254, 127, 0, 192, 255, 127] \<and>
   decode_samples [254, 127, 0, 192, 255, 127] = Inr [32766 / 32768, - 1 / 2, 32767 / 32768] \<and>
   \<bar>[32766 / 32768, - 1 / 2, 32767 / 32768] ! 0 - [65535 / 65536, - 1 / 2, 1] ! 0\<bar> < (2 / 32768 :: real)"
proof -
  have h: "\<forall>x \<in> set [65535 / 65536, - 1 / 2, 1 :: real]. - 1 \<le> x \<and> x \<le> 1"
    by simp
  from pcm_round_trip [OF h] obtain bytes decoded where
    b: "floatTo16BitPCM (map Finite [65535 / 65536, - 1 / 2, 1]) = Inr bytes"
    and d: "decode_samples bytes = Inr decoded"
    and q: "\<forall>i < length [65535 / 65536, - 1 / 2, 1 :: real].
        \<bar>decoded ! i - [65535 / 65536, - 1 / 2, 1] ! i\<bar> < 2 / 32768"
    by blast
  have e: "floatTo16BitPCM (map Finite [65535 / 65536, - 1 / 2, 1]) = Inr [254, 127, 0, 192, 255, 127]"
    by code_simp
  have f: "decode_samples [254, 127, 0, 192, 255, 127] = Inr [32766 / 32768, - 1 / 2, 32767 / 32768]"
    by code_simp
  from b e have "bytes = [254, 127, 0, 192, 255, 127]" by simp
  with d f have "decoded = [32766 / 32768, - 1 / 2, 32767 / 32768]" by simp
  with q have "\<bar>[32766 / 32768, - 1 / 2, 32767 / 32768] ! 0 - [65535 / 65536, - 1 / 2, 1] ! 0\<bar> < (2 / 32768 :: real)"
    by (simp del: nth_Cons_0)
  with e f show ?thesis by blast
qed

text \<open>
  C7 as stated, with the bound \<open>1 / 32768\<close>: the sample 65535/65536 is encoded as
  32766 and decoded as 32766/32768, which is 3/65536 away from it.
\<close>

theorem pcm_round_trip_counterexample:
  "floatTo16BitPCM (map Finite [65535 / 65536]) = Inr [254, 127] \<and>
   decode_samples [254, 127] = Inr [32766 / 32768] \<and>
   - 1 \<le> (65535 / 65536 :: real) \<and> (65535 / 65536 :: real) \<le> 1 \<and>
   \<not> \<bar>32766 / 32768 - 65535 / 65536\<bar> \<le> (1 / 32768 :: real)"
  by code_simp

section \<open>Properties of the transport encoding\<close>

lemma distinct_base64_alphabet: "distinct base64_alphabet"
  by code_simp

lemma length_base64_alphabet: "length base64_alphabet = 64"
  by (simp add: base64_alphabet_def)

lemma index_of_nth: "distinct xs \<Longrightarrow> n < length xs \<Longrightarrow> index_of (xs ! n) xs = Some n"
proof (induction xs arbitrary: n)
  case Nil
  then show ?case by simp
next
  case (Cons x xs)
  show ?case
  proof (cases n)
    case 0
    then show ?thesis by simp
  next
    case (Suc m)
    with Cons.prems have "m < length xs" "distinct xs" "xs ! m \<noteq> x"
      by auto
    with Cons.IH [of m] Suc show ?thesis by simp
  qed
qed

lemma base64_index_char: "n < 64 \<Longrightarrow> base64_index (base64_char n) = Some n"
  by (simp add: base64_index_def base64_char_def index_of_nth distinct_base64_alphabet
      length_base64_alphabet)

lemma base64_char_in_alphabet: "base64_char n \<in> set base64_alphabet"
  by (simp add: base64_char_def length_base64_alphabet)

lemma alphabet_plain_all:
  "list_all (\<lambda>c. \<not> is_ascii_whitespace c \<and> c \<noteq> CHR ''='') base64_alphabet"
  by code_simp

lemma alphabet_plain: "c \<in> set base64_alphabet \<Longrightarrow> \<not> is_ascii_whitespace c \<and> c \<noteq> CHR ''=''"
  using alphabet_plain_all by (simp add: list_all_iff)


lemma padding_step: "padding (Suc (Suc (Suc n))) = padding n"
proof -
  have "Suc (Suc (Suc n)) mod 3 = n mod 3"
    by presburger
  then show ?thesis by (simp only: padding_def)
qed

lemma padding_small:
  "padding 0 = []" "padding (Suc 0) = ''==''" "padding (Suc (Suc 0)) = ''=''"
  by code_simp+

lemma btoa_groups_eq:
  "btoa_groups bs = map base64_char (sextets bs) @ padding (length bs)"
proof (induction bs rule: btoa_groups.induct)
  case (1 a b c rest)
  then show ?case by (simp add: padding_step)
next
  case (2 a b)
  show ?case by (simp add: padding_small)
next
  case (3 a)
  show ?case by (simp add: padding_small)
next
  case 4
  show ?case by (simp add: padding_small)
qed

lemma group3_value:
  fixes a b c :: nat
  shows "((a div 4 * 64 + (a mod 4 * 16 + b div 16)) * 64 + (b mod 16 * 4 + c div 64)) * 64 + c mod 64
     = a * 65536 + b * 256 + c"
proof -
  define a1 a0 b1 b0 c1 c0
    where "a1 = a div 4" and "a0 = a mod 4" and "b1 = b div 16" and "b0 = b mod 16"
      and "c1 = c div 64" and "c0 = c mod 64"
  have "a = 4 * a1 + a0" "b = 16 * b1 + b0" "c = 64 * c1 + c0"
    by (simp_all add: a1_def a0_def b1_def b0_def c1_def c0_def)
  then have "((a1 * 64 + (a0 * 16 + b1)) * 64 + (b0 * 4 + c1)) * 64 + c0 = a * 65536 + b * 256 + c"
    by simp
  then show ?thesis
    by (simp only: a1_def a0_def b1_def b0_def c1_def c0_def)
qed

lemma group3_bytes:
  fixes a b c :: nat
  assumes "b < 256" "c < 256"
  shows "(a * 65536 + b * 256 + c) div 65536 = a"
    and "(a * 65536 + b * 256 + c) div 256 mod 256 = b"
    and "(a * 65536 + b * 256 + c) mod 256 = c"
proof -
  have r: "b * 256 + c < 65536" using assms by linarith
  have f: "a * 65536 + b * 256 + c = (b * 256 + c) + a * 65536" by simp
  have "((b * 256 + c) + a * 65536) div 65536 = a + (b * 256 + c) div 65536"
    by (rule div_mult_self1) simp
  with r show "(a * 65536 + b * 256 + c) div 65536 = a"
    unfolding f by simp
  have e: "a * 65536 + b * 256 + c = c + (a * 256 + b) * 256" by simp
  have "(c + (a * 256 + b) * 256) div 256 = (a * 256 + b) + c div 256"
    by (rule div_mult_self1) simp
  with assms have d: "(a * 65536 + b * 256 + c) div 256 = a * 256 + b"
    unfolding e by simp
  show "(a * 65536 + b * 256 + c) div 256 mod 256 = b"
    unfolding d using assms by simp
  have "(c + (a * 256 + b) * 256) mod 256 = c mod 256"
    by (rule mod_mult_self1)
  with assms show "(a * 65536 + b * 256 + c) mod 256 = c"
    unfolding e by (simp only: mod_less)
qed

lemma group2_value:
  fixes a b :: nat
  shows "((a div 4 * 64 + (a mod 4 * 16 + b div 16)) * 64 + b mod 16 * 4) div 4 = a * 256 + b"
proof -
  define a1 a0 b1 b0
    where "a1 = a div 4" and "a0 = a mod 4" and "b1 = b div 16" and "b0 = b mod 16"
  have "a = 4 * a1 + a0" "b = 16 * b1 + b0"
    by (simp_all add: a1_def a0_def b1_def b0_def)
  then have "(a1 * 64 + (a0 * 16 + b1)) * 64 + b0 * 4 = (a * 256 + b) * 4"
    by simp
  then have "((a1 * 64 + (a0 * 16 + b1)) * 64 + b0 * 4) div 4 = a * 256 + b"
    by simp
  then show ?thesis
    by (simp only: a1_def a0_def b1_def b0_def)
qed

lemma group2_bytes:
  fixes a b :: nat
  assumes "b < 256"
  shows "(a * 256 + b) div 256 = a" and "(a * 256 + b) mod 256 = b"
  using assms by simp_all

lemma group1_value:
  fixes a :: nat
  shows "(a div 4 * 64 + a mod 4 * 16) div 16 = a"
proof -
  define a1 a0 where "a1 = a div 4" and "a0 = a mod 4"
  have "a = 4 * a1 + a0"
    by (simp add: a1_def a0_def)
  then have "a1 * 64 + a0 * 16 = a * 16"
    by simp
  then have "(a1 * 64 + a0 * 16) div 16 = a"
    by simp
  then show ?thesis
    by (simp only: a1_def a0_def)
qed

lemma sextet_bounds:
  fixes a b c :: nat
  assumes "a < 256" "b < 256" "c < 256"
  shows "a div 4 < 64" "a mod 4 * 16 + b div 16 < 64" "b mod 16 * 4 + c div 64 < 64"
    "b mod 16 * 4 < 64" "a mod 4 * 16 < 64" "c mod 64 < 64"
proof -
  define a1 a0 b1 b0 c1
    where "a1 = a div 4" and "a0 = a mod 4" and "b1 = b div 16" and "b0 = b mod 16"
      and "c1 = c div 64"
  have "a0 < 4" "b0 < 16" by (simp_all add: a0_def b0_def)
  moreover have "b1 < 16" "c1 < 4" "a1 < 64"
    using assms by (simp_all add: a1_def b1_def c1_def less_mult_imp_div_less)
  ultimately have "a1 < 64" "a0 * 16 + b1 < 64" "b0 * 4 + c1 < 64" "b0 * 4 < 64" "a0 * 16 < 64"
    by linarith+
  then show "a div 4 < 64" "a mod 4 * 16 + b div 16 < 64" "b mod 16 * 4 + c div 64 < 64"
    "b mod 16 * 4 < 64" "a mod 4 * 16 < 64"
    by (simp_all only: a1_def a0_def b1_def b0_def c1_def)
  show "c mod 64 < 64" by simp
qed

lemma length_step: "4 + 4 * ((n + 2) div 3) = 4 * ((n + 3 + 2) div 3)" for n :: nat
proof -
  have "(n + 3 + 2) div 3 = (n + 2) div 3 + 1" by simp
  then show ?thesis by simp
qed

lemma sextets_bound: "\<forall>b \<in> set bs. b < 256 \<Longrightarrow> \<forall>n \<in> set (sextets bs). n < 64"
proof (induction bs rule: sextets.induct)
  case (1 a b c rest)
  then have lt: "a < 256" "b < 256" "c < 256" and r: "\<forall>n \<in> set (sextets rest). n < 64"
    by simp_all
  from sextet_bounds [OF lt] r show ?case by simp
next
  case (2 a b)
  then have lt: "a < 256" "b < 256" "b < 256" by simp_all
  from sextet_bounds [OF lt] show ?case by simp
next
  case (3 a)
  then have lt: "a < 256" "a < 256" "a < 256" by simp_all
  from sextet_bounds [OF lt] show ?case by simp
next
  case 4
  show ?case by simp
qed

lemma atob_groups_sextets: "\<forall>b \<in> set bs. b < 256 \<Longrightarrow> atob_groups (sextets bs) = bs"
proof (induction bs rule: sextets.induct)
  case (1 a b c rest)
  then have lt: "b < 256" "c < 256" and r: "atob_groups (sextets rest) = rest"
    by simp_all
  let ?n = "((a div 4 * 64 + (a mod 4 * 16 + b div 16)) * 64 + (b mod 16 * 4 + c div 64)) * 64 + c mod 64"
  have "atob_groups (sextets (a # b # c # rest)) =
      [?n div 65536, ?n div 256 mod 256, ?n mod 256] @ atob_groups (sextets rest)"
    by (simp only: sextets.simps append.simps atob_groups.simps Let_def)
  also have "\<dots> = [a, b, c] @ rest"
    by (simp only: group3_value group3_bytes [OF lt] r)
  finally show ?case by simp
next
  case (2 a b)
  then have lt: "b < 256" by simp
  let ?n = "((a div 4 * 64 + (a mod 4 * 16 + b div 16)) * 64 + b mod 16 * 4) div 4"
  have "atob_groups (sextets [a, b]) = [?n div 256, ?n mod 256]"
    by (simp only: sextets.simps atob_groups.simps Let_def)
  also have "\<dots> = [a, b]"
    by (simp only: group2_value group2_bytes [OF lt])
  finally show ?case .
next
  case (3 a)
  have "atob_groups (sextets [a]) = [(a div 4 * 64 + a mod 4 * 16) div 16]"
    by (simp only: sextets.simps atob_groups.simps)
  then show ?case by (simp only: group1_value)
next
  case 4
  show ?case by simp
qed

lemma length_sextets_mod: "length (sextets bs) mod 4 \<noteq> 1"
  by (induction bs rule: sextets.induct) simp_all

lemma length_btoa_groups: "length (btoa_groups bs) = 4 * ((length bs + 2) div 3)"
proof (induction bs rule: btoa_groups.induct)
  case (1 a b c rest)
  have "length (btoa_groups (a # b # c # rest)) = 4 + length (btoa_groups rest)"
    by simp
  also have "\<dots> = 4 + 4 * ((length rest + 2) div 3)"
    by (simp only: 1)
  also have "\<dots> = 4 * ((length rest + 3 + 2) div 3)"
    by (rule length_step)
  also have "length rest + 3 = length (a # b # c # rest)"
    by simp
  finally show ?case .
qed simp_all


lemma padding_cases: "padding n = [] \<or> padding n = ''='' \<or> padding n = ''==''"
proof -
  have "n mod 3 = 0 \<or> n mod 3 = 1 \<or> n mod 3 = 2"
    by presburger
  then show ?thesis
    by (auto simp: padding_def numeral_2_eq_2)
qed

lemma strip_padding_body:
  assumes "\<forall>c \<in> set body. c \<noteq> CHR ''=''"
  shows "strip_padding body = body"
    and "strip_padding (body @ ''='') = body"
    and "strip_padding (body @ ''=='') = body"
proof -
  have l: "body \<noteq> [] \<Longrightarrow> last body \<noteq> CHR ''=''"
    using assms by (meson last_in_set)
  show "strip_padding body = body"
    using l by (auto simp: strip_padding_def)
  show "strip_padding (body @ ''='') = body"
    using l by (auto simp: strip_padding_def Let_def)
  have "butlast (body @ ''=='') = body @ ''=''"
    by (simp add: butlast_append)
  then show "strip_padding (body @ ''=='') = body"
    by (simp add: strip_padding_def Let_def)
qed

lemma strip_padding_padding:
  assumes "\<forall>c \<in> set body. c \<noteq> CHR ''=''"
  shows "strip_padding (body @ padding n) = body"
  using padding_cases [of n] strip_padding_body [OF assms] by auto

lemma those_base64_index:
  "\<forall>n \<in> set ns. n < 64 \<Longrightarrow> those (map base64_index (map base64_char ns)) = Some ns"
  by (induction ns) (simp_all add: base64_index_char)

lemma not_whitespace_pad: "\<not> is_ascii_whitespace (CHR ''='')"
  by code_simp

lemma filter_btoa_groups:
  "filter (\<lambda>c. \<not> is_ascii_whitespace c) (map base64_char ns @ padding n) =
     map base64_char ns @ padding n"
proof -
  have "\<forall>c \<in> set (map base64_char ns @ padding n). \<not> is_ascii_whitespace c"
    using alphabet_plain base64_char_in_alphabet not_whitespace_pad
    by (auto simp: padding_def)
  then show ?thesis by (simp only: filter_True)
qed

lemma atob_btoa_groups:
  assumes "\<forall>b \<in> set bs. b < 256"
  shows "atob (btoa_groups bs) = Inr (map char_of bs)"
proof -
  let ?body = "map base64_char (sextets bs)"
  let ?pad = "padding (length bs)"
  have d: "btoa_groups bs = ?body @ ?pad"
    by (rule btoa_groups_eq)
  have f: "filter (\<lambda>c. \<not> is_ascii_whitespace c) (?body @ ?pad) = ?body @ ?pad"
    by (rule filter_btoa_groups)
  have "length (btoa_groups bs) mod 4 = 0"
    by (simp add: length_btoa_groups)
  then have m: "length (?body @ ?pad) mod 4 = 0"
    by (simp only: d)
  have "\<forall>c \<in> set ?body. c \<noteq> CHR ''=''"
    using alphabet_plain base64_char_in_alphabet by auto
  then have s: "strip_padding (?body @ ?pad) = ?body"
    by (rule strip_padding_padding)
  have l: "length ?body mod 4 \<noteq> 1"
    using length_sextets_mod [of bs] by simp
  have t: "those (map base64_index ?body) = Some (sextets bs)"
    using assms by (intro those_base64_index sextets_bound)
  have g: "atob_groups (sextets bs) = bs"
    using assms by (rule atob_groups_sextets)
  show ?thesis
    unfolding atob_def d f Let_def
    by (simp only: m s l t g simp_thms if_True if_False option.case)
qed

lemma unat_u8_less: "unat (b :: u8) < 256"
  using unsigned_less [of b, where 'a = nat] by simp

lemma base64_round_trip_bytes:
  "base64ToUint8Array (uint8ArrayToBase64 bytes) = Inr bytes"
proof -
  have u: "map of_char (map (\<lambda>b. char_of (unat b)) bytes) = map unat bytes"
    by (simp add: comp_def unat_u8_less)
  have b: "\<forall>b \<in> set (map unat bytes). b < 256"
    by (simp add: unat_u8_less)
  have "atob (uint8ArrayToBase64 bytes) = Inr (map char_of (map unat bytes))"
    unfolding uint8ArrayToBase64_def btoa_def u using b by (rule atob_btoa_groups)
  then show ?thesis
    by (simp add: base64ToUint8Array_def comp_def unat_u8_less map_idI)
qed

lemma set_btoa_groups: "set (btoa_groups bs) \<subseteq> set base64_alphabet \<union> {CHR ''=''}"
  using base64_char_in_alphabet by (auto simp: btoa_groups_eq padding_def)

text \<open>
  C8. For every byte sequence, \<open>base64ToUint8Array\<close> applied to the text that the
  outbound loop and \<open>btoa\<close> produce returns exactly that sequence. The text is
  standard base64: four characters for every three bytes begun, so the padding is
  kept, and only characters of the alphabet and \<open>=\<close>, so no line break.
\<close>

theorem base64_round_trip:
  "base64ToUint8Array (uint8ArrayToBase64 bytes) = Inr bytes \<and>
   length (uint8ArrayToBase64 bytes) = 4 * ((length bytes + 2) div 3) \<and>
   set (uint8ArrayToBase64 bytes) \<subseteq> set base64_alphabet \<union> {CHR ''=''}"
proof -
  have "length (uint8ArrayToBase64 bytes) = 4 * ((length bytes + 2) div 3)"
    by (simp add: uint8ArrayToBase64_def btoa_def length_btoa_groups)
  moreover have "set (uint8ArrayToBase64 bytes) \<subseteq> set base64_alphabet \<union> {CHR ''=''}"
    unfolding uint8ArrayToBase64_def btoa_def by (rule set_btoa_groups)
  ultimately show ?thesis
    using base64_round_trip_bytes [of bytes] by blast
qed

text \<open>The bytes 1, 2, 3, 4 travel as \<open>AQIDBA==\<close>.\<close>

theorem base64_round_trip_witness:
  "uint8ArrayToBase64 [1, 2, 3, 4] = ''AQIDBA=='' \<and>
   base64ToUint8Array ''AQIDBA=='' = Inr [1, 2, 3, 4]"
proof -
  have e: "uint8ArrayToBase64 [1, 2, 3, 4] = ''AQIDBA==''"
    by code_simp
  from base64_round_trip [of "[1, 2, 3, 4]"] show ?thesis
    unfolding e by simp
qed


section \<open>Properties of the playback scheduler\<close>

lemma decode_loop_total:
  "2 * (i + k) \<le> length view \<Longrightarrow> \<exists>vs. decode_loop view i k = Inr vs \<and> length vs = k"
proof (induction k arbitrary: i)
  case 0
  then show ?case by simp
next
  case (Suc k)
  then have "2 * (i + 1 + k) \<le> length view" by simp
  from Suc.IH [OF this] obtain vs where "decode_loop view (i + 1) k = Inr vs" "length vs = k"
    by blast
  moreover have "\<not> length view < i * 2 + 2"
    using Suc.prems by simp
  ultimately show ?case
    by (simp add: getInt16_def)
qed

lemma decode_samples_total:
  "\<exists>vs. decode_samples bytes = Inr vs \<and> length vs = length bytes div 2"
  unfolding decode_samples_def
  by (rule decode_loop_total) simp


lemma base64ToUint8Array_empty: "base64ToUint8Array [] = Inr []"
  by code_simp

lemma onmessage_schedules:
  assumes ctx: "audioContextRef s = Some ctx"
    and bytes: "base64ToUint8Array data = Inr bytes"
    and len: "2 \<le> length bytes"
  shows "\<exists>samples. decode_samples bytes = Inr samples \<and> length samples = length bytes div 2 \<and>
     onmessage (Some data) now s =
       (Scheduled (max now (nextStartTimeRef s)),
        s\<lparr>isSpeaking := True,
          scheduled := scheduled s @ [(ctx, max now (nextStartTimeRef s), samples)],
          nextStartTimeRef := max now (nextStartTimeRef s) + real (length bytes div 2) / 24000\<rparr>)"
proof -
  from decode_samples_total [of bytes] obtain samples
    where d: "decode_samples bytes = Inr samples" and l: "length samples = length bytes div 2"
    by blast
  have ne: "data \<noteq> []"
    using bytes len base64ToUint8Array_empty by auto
  have pos: "length samples \<noteq> 0"
    using l len by simp
  have "onmessage (Some data) now s =
       (Scheduled (max now (nextStartTimeRef s)),
        s\<lparr>isSpeaking := True,
          scheduled := scheduled s @ [(ctx, max now (nextStartTimeRef s), samples)],
          nextStartTimeRef := max now (nextStartTimeRef s) + real (length bytes div 2) / 24000\<rparr>)"
    using ne pos by (simp add: onmessage_def ctx bytes d createBuffer_def Let_def l)
  with d l show ?thesis by blast
qed

lemma onmessage_cursor_mono: "nextStartTimeRef s \<le> nextStartTimeRef (snd (onmessage audioData now s))"
  by (auto simp: onmessage_def createBuffer_def Let_def
      split: option.splits sum.splits if_splits)

lemma step_cursor_mono: "e \<noteq> Disconnect \<Longrightarrow> nextStartTimeRef s \<le> nextStartTimeRef (step e s)"
proof (cases e)
  case (Connect apiKey media)
  then show ?thesis
    by (simp add: connect_def Let_def split: media_result.splits)
next
  case (OnOpen session)
  then show ?thesis
    by (simp add: onopen_def Let_def split: option.splits)
next
  case (OnMessage audioData now)
  then show ?thesis
    by (simp add: onmessage_cursor_mono)
next
  case (OnEnded now)
  then show ?thesis by (simp add: onended_def)
next
  case (OnClose session)
  then show ?thesis by (simp add: onclose_def)
next
  case OnError
  then show ?thesis by (simp add: onerror_def)
next
  case Disconnect
  assume "e \<noteq> Disconnect"
  with Disconnect show ?thesis by simp
qed

lemma run_cursor_mono:
  "Disconnect \<notin> set es \<Longrightarrow> nextStartTimeRef s \<le> nextStartTimeRef (run es s)"
proof (induction es arbitrary: s)
  case Nil
  then show ?case by simp
next
  case (Cons e es)
  then have "e \<noteq> Disconnect" "Disconnect \<notin> set es" by auto
  from step_cursor_mono [OF this(1), of s] Cons.IH [OF this(2), of "step e s"]
  show ?case by simp
qed


text \<open>
  C1. A message whose payload decodes to at least one sample, handled while an
  output context is set, is scheduled to start at the larger of the clock and the
  cursor, and the cursor moves to that start plus the duration of the segment
  (samples / 24000). Three such segments of durations \<open>d1\<close>, \<open>d2\<close>, \<open>d3\<close>, the second
  and third arriving no later than the end of what is already scheduled, start at
  \<open>t0\<close>, \<open>t0 + d1\<close>, \<open>t0 + d1 + d2\<close>, whatever their arrival times. Over any run of
  events without \<open>disconnect\<close> the cursor never decreases.
\<close>

theorem playback_schedule:
  assumes ctx: "audioContextRef s0 = Some ctx"
    and m1: "base64ToUint8Array data1 = Inr bytes1" "2 \<le> length bytes1"
    and m2: "base64ToUint8Array data2 = Inr bytes2" "2 \<le> length bytes2"
    and m3: "base64ToUint8Array data3 = Inr bytes3" "2 \<le> length bytes3"
    and d1: "d1 = real (length bytes1 div 2) / 24000"
    and d2: "d2 = real (length bytes2 div 2) / 24000"
    and d3: "d3 = real (length bytes3 div 2) / 24000"
    and t0: "t0 = max now1 (nextStartTimeRef s0)"
    and a2: "now2 \<le> t0 + d1"
    and a3: "now3 \<le> t0 + d1 + d2"
  shows "fst (onmessage (Some data1) now1 s0) = Scheduled t0 \<and>
     nextStartTimeRef (snd (onmessage (Some data1) now1 s0)) = t0 + d1 \<and>
     map (\<lambda>p. fst (snd p))
       (scheduled (run [OnMessage (Some data1) now1, OnMessage (Some data2) now2,
                        OnMessage (Some data3) now3] s0)) =
       map (\<lambda>p. fst (snd p)) (scheduled s0) @ [t0, t0 + d1, t0 + d1 + d2] \<and>
     nextStartTimeRef (run [OnMessage (Some data1) now1, OnMessage (Some data2) now2,
                            OnMessage (Some data3) now3] s0) = t0 + d1 + d2 + d3 \<and>
     (\<forall>es s. Disconnect \<notin> set es \<longrightarrow> nextStartTimeRef s \<le> nextStartTimeRef (run es s))"
proof -
  from onmessage_schedules [OF ctx m1, of now1] obtain v1 where
    r1: "onmessage (Some data1) now1 s0 =
       (Scheduled t0,
        s0\<lparr>isSpeaking := True, scheduled := scheduled s0 @ [(ctx, t0, v1)],
           nextStartTimeRef := t0 + d1\<rparr>)"
    unfolding t0 d1 by blast
  define s1 where "s1 = s0\<lparr>isSpeaking := True, scheduled := scheduled s0 @ [(ctx, t0, v1)],
           nextStartTimeRef := t0 + d1\<rparr>"
  have c1: "audioContextRef s1 = Some ctx" "nextStartTimeRef s1 = t0 + d1"
    "scheduled s1 = scheduled s0 @ [(ctx, t0, v1)]"
    by (simp_all add: s1_def ctx)
  have x2: "max now2 (nextStartTimeRef s1) = t0 + d1"
    using a2 c1 by simp
  from onmessage_schedules [OF c1(1) m2, of now2] obtain v2 where
    r2: "onmessage (Some data2) now2 s1 =
       (Scheduled (t0 + d1),
        s1\<lparr>isSpeaking := True, scheduled := scheduled s1 @ [(ctx, t0 + d1, v2)],
           nextStartTimeRef := t0 + d1 + d2\<rparr>)"
    unfolding x2 d2 by blast
  define s2 where "s2 = s1\<lparr>isSpeaking := True, scheduled := scheduled s1 @ [(ctx, t0 + d1, v2)],
           nextStartTimeRef := t0 + d1 + d2\<rparr>"
  have c2: "audioContextRef s2 = Some ctx" "nextStartTimeRef s2 = t0 + d1 + d2"
    "scheduled s2 = scheduled s0 @ [(ctx, t0, v1), (ctx, t0 + d1, v2)]"
    by (simp_all add: s2_def c1)
  have x3: "max now3 (nextStartTimeRef s2) = t0 + d1 + d2"
    using a3 c2 by simp
  from onmessage_schedules [OF c2(1) m3, of now3] obtain v3 where
    r3: "onmessage (Some data3) now3 s2 =
       (Scheduled (t0 + d1 + d2),
        s2\<lparr>isSpeaking := True, scheduled := scheduled s2 @ [(ctx, t0 + d1 + d2, v3)],
           nextStartTimeRef := t0 + d1 + d2 + d3\<rparr>)"
    unfolding x3 d3 by blast
  have run3: "run [OnMessage (Some data1) now1, OnMessage (Some data2) now2,
        OnMessage (Some data3) now3] s0 =
      s2\<lparr>isSpeaking := True, scheduled := scheduled s2 @ [(ctx, t0 + d1 + d2, v3)],
           nextStartTimeRef := t0 + d1 + d2 + d3\<rparr>"
    using r1 r2 r3 by (simp add: s1_def [symmetric] s2_def [symmetric])
  have "fst (onmessage (Some data1) now1 s0) = Scheduled t0"
    and "nextStartTimeRef (snd (onmessage (Some data1) now1 s0)) = t0 + d1"
    by (simp_all add: r1)
  moreover have "map (\<lambda>p. fst (snd p))
       (scheduled (run [OnMessage (Some data1) now1, OnMessage (Some data2) now2,
                        OnMessage (Some data3) now3] s0)) =
       map (\<lambda>p. fst (snd p)) (scheduled s0) @ [t0, t0 + d1, t0 + d1 + d2]"
    unfolding run3 by (simp add: c2)
  moreover have "nextStartTimeRef (run [OnMessage (Some data1) now1, OnMessage (Some data2) now2,
                            OnMessage (Some data3) now3] s0) = t0 + d1 + d2 + d3"
    unfolding run3 by simp
  moreover have "\<forall>es s. Disconnect \<notin> set es \<longrightarrow> nextStartTimeRef s \<le> nextStartTimeRef (run es s)"
    by (simp add: run_cursor_mono)
  ultimately show ?thesis by blast
qed


lemma opened_session_facts:
  "audioContextRef opened_session = Some 1"
  "nextStartTimeRef opened_session = 0"
  "scheduled opened_session = []"
  "isConnected opened_session"
  by code_simp+

lemma sample_texts:
  "uint8ArrayToBase64 [0, 0, 0, 0] = ''AAAAAA==''"
  "uint8ArrayToBase64 [0, 0] = ''AAA=''"
  "uint8ArrayToBase64 [0, 0, 0, 0, 0, 0] = ''AAAAAAAA''"
  "uint8ArrayToBase64 [0, 0, 0] = ''AAAA''"
  "uint8ArrayToBase64 [0] = ''AA==''"
  by code_simp+

lemma sample_payloads:
  "base64ToUint8Array ''AAAAAA=='' = Inr [0, 0, 0, 0]"
  "base64ToUint8Array ''AAA='' = Inr [0, 0]"
  "base64ToUint8Array ''AAAAAAAA'' = Inr [0, 0, 0, 0, 0, 0]"
  "base64ToUint8Array ''AAAA'' = Inr [0, 0, 0]"
  "base64ToUint8Array ''AA=='' = Inr [0]"
  using base64_round_trip_bytes [of "[0, 0, 0, 0]"] base64_round_trip_bytes [of "[0, 0]"]
    base64_round_trip_bytes [of "[0, 0, 0, 0, 0, 0]"] base64_round_trip_bytes [of "[0, 0, 0]"]
    base64_round_trip_bytes [of "[0]"]
  unfolding sample_texts by simp_all

text \<open>
  Segments of 2, 1 and 3 samples, all arriving at clock 0.5 in a session just
  opened.
\<close>

theorem playback_schedule_witness:
  "fst (onmessage (Some ''AAAAAA=='') (1 / 2) opened_session) = Scheduled (1 / 2) \<and>
   nextStartTimeRef (snd (onmessage (Some ''AAAAAA=='') (1 / 2) opened_session)) = 1 / 2 + 1 / 12000 \<and>
   map (\<lambda>p. fst (snd p))
     (scheduled (run [OnMessage (Some ''AAAAAA=='') (1 / 2), OnMessage (Some ''AAA='') (1 / 2),
                      OnMessage (Some ''AAAAAAAA'') (1 / 2)] opened_session)) =
     [1 / 2, 1 / 2 + 1 / 12000, 1 / 2 + 1 / 12000 + 1 / 24000] \<and>
   nextStartTimeRef (run [OnMessage (Some ''AAAAAA=='') (1 / 2), OnMessage (Some ''AAA='') (1 / 2),
                          OnMessage (Some ''AAAAAAAA'') (1 / 2)] opened_session) =
     1 / 2 + 1 / 12000 + 1 / 24000 + 1 / 8000 \<and>
   nextStartTimeRef opened_session \<le>
     nextStartTimeRef (run [OnMessage (Some ''AAAAAA=='') (1 / 2), OnEnded 1] opened_session)"
proof -
  have l: "2 \<le> length [0, 0, 0, 0 :: u8]" "2 \<le> length [0, 0 :: u8]"
    "2 \<le> length [0, 0, 0, 0, 0, 0 :: u8]"
    by simp_all
  have d: "(1 / 12000 :: real) = real (length [0, 0, 0, 0 :: u8] div 2) / 24000"
    "(1 / 24000 :: real) = real (length [0, 0 :: u8] div 2) / 24000"
    "(1 / 8000 :: real) = real (length [0, 0, 0, 0, 0, 0 :: u8] div 2) / 24000"
    by simp_all
  have t: "(1 / 2 :: real) = max (1 / 2) (nextStartTimeRef opened_session)"
    by (simp add: opened_session_facts)
  have a: "(1 / 2 :: real) \<le> 1 / 2 + 1 / 12000" "(1 / 2 :: real) \<le> 1 / 2 + 1 / 12000 + 1 / 24000"
    by simp_all
  have n: "Disconnect \<notin> set [OnMessage (Some ''AAAAAA=='') (1 / 2), OnEnded 1]"
    by simp
  note p = playback_schedule [OF opened_session_facts(1) sample_payloads(1) l(1)
      sample_payloads(2) l(2) sample_payloads(3) l(3) d t a]
  note p1 = p [THEN conjunct1]
    and p2 = p [THEN conjunct2, THEN conjunct1]
    and p3 = p [THEN conjunct2, THEN conjunct2, THEN conjunct1]
    and p4 = p [THEN conjunct2, THEN conjunct2, THEN conjunct2, THEN conjunct1]
    and p5 = p [THEN conjunct2, THEN conjunct2, THEN conjunct2, THEN conjunct2, rule_format, OF n]
  have p3': "map (\<lambda>p. fst (snd p))
     (scheduled (run [OnMessage (Some ''AAAAAA=='') (1 / 2), OnMessage (Some ''AAA='') (1 / 2),
                      OnMessage (Some ''AAAAAAAA'') (1 / 2)] opened_session)) =
     [1 / 2, 1 / 2 + 1 / 12000, 1 / 2 + 1 / 12000 + 1 / 24000]"
    using p3 unfolding opened_session_facts(3) list.map append_Nil .
  show ?thesis
    by (rule conjI p1 p2 p3' p4 p5)+
qed


lemma decode_loop_append:
  "2 * (i + k) \<le> length xs \<Longrightarrow> decode_loop (xs @ ys) i k = decode_loop xs i k"
proof (induction k arbitrary: i)
  case 0
  then show ?case by simp
next
  case (Suc k)
  then have "2 * (i + 1 + k) \<le> length xs" by simp
  from Suc.IH [OF this] have r: "decode_loop (xs @ ys) (i + 1) k = decode_loop xs (i + 1) k" .
  have "i * 2 + 2 \<le> length xs"
    using Suc.prems by simp
  then have g: "getInt16 (xs @ ys) (i * 2) = getInt16 xs (i * 2)"
    by (simp add: getInt16_def nth_append)
  show ?case by (simp only: decode_loop.simps r g)
qed

lemma decode_samples_odd:
  assumes "odd (length bytes)"
  shows "decode_samples bytes = decode_samples (butlast bytes)"
    and "length bytes div 2 = (length bytes - 1) div 2"
proof -
  from assms have ne: "bytes \<noteq> []" by auto
  then have b: "bytes = butlast bytes @ [last bytes]" by simp
  from assms show h: "length bytes div 2 = (length bytes - 1) div 2"
    by presburger
  have "decode_loop (butlast bytes @ [last bytes]) 0 (length (butlast bytes) div 2) =
      decode_loop (butlast bytes) 0 (length (butlast bytes) div 2)"
    by (rule decode_loop_append) simp
  then show "decode_samples bytes = decode_samples (butlast bytes)"
    using b h by (simp add: decode_samples_def)
qed

text \<open>
  C2 (as amended). A message whose decoded payload has an odd number \<open>n\<close> of bytes is
  not refused. For \<open>n \<ge> 3\<close> the last byte is ignored, the \<open>(n - 1) / 2\<close> samples of the
  bytes before it are scheduled like any other segment, and the cursor advances. For
  \<open>n = 1\<close> there is no sample, \<open>createBuffer\<close> raises, nothing is scheduled and the
  cursor stays. Either way the handler ends and the session goes on.
\<close>

theorem odd_payload_scheduled:
  assumes ctx: "audioContextRef s = Some ctx"
    and bytes: "base64ToUint8Array data = Inr bytes"
    and odd: "odd (length bytes)"
  shows "(length bytes = 1 \<longrightarrow>
       onmessage (Some data) now s = (Threw NotSupportedError, s\<lparr>isSpeaking := True\<rparr>)) \<and>
     (3 \<le> length bytes \<longrightarrow>
       (\<exists>samples. decode_samples (butlast bytes) = Inr samples \<and>
          length samples = (length bytes - 1) div 2 \<and>
          onmessage (Some data) now s =
            (Scheduled (max now (nextStartTimeRef s)),
             s\<lparr>isSpeaking := True,
               scheduled := scheduled s @ [(ctx, max now (nextStartTimeRef s), samples)],
               nextStartTimeRef :=
                 max now (nextStartTimeRef s) + real ((length bytes - 1) div 2) / 24000\<rparr>)))"
proof (intro conjI impI)
  assume one: "length bytes = 1"
  have ne: "data \<noteq> []"
    using bytes one base64ToUint8Array_empty by auto
  from decode_samples_total [of bytes] one have "decode_samples bytes = Inr []"
    by auto
  then show "onmessage (Some data) now s = (Threw NotSupportedError, s\<lparr>isSpeaking := True\<rparr>)"
    using ne by (simp add: onmessage_def ctx bytes createBuffer_def Let_def)
next
  assume three: "3 \<le> length bytes"
  then have two: "2 \<le> length bytes" by simp
  from onmessage_schedules [OF ctx bytes two, of now] obtain samples where
    "decode_samples bytes = Inr samples" "length samples = length bytes div 2"
    "onmessage (Some data) now s =
       (Scheduled (max now (nextStartTimeRef s)),
        s\<lparr>isSpeaking := True,
          scheduled := scheduled s @ [(ctx, max now (nextStartTimeRef s), samples)],
          nextStartTimeRef := max now (nextStartTimeRef s) + real (length bytes div 2) / 24000\<rparr>)"
    by blast
  then show "\<exists>samples. decode_samples (butlast bytes) = Inr samples \<and>
          length samples = (length bytes - 1) div 2 \<and>
          onmessage (Some data) now s =
            (Scheduled (max now (nextStartTimeRef s)),
             s\<lparr>isSpeaking := True,
               scheduled := scheduled s @ [(ctx, max now (nextStartTimeRef s), samples)],
               nextStartTimeRef :=
                 max now (nextStartTimeRef s) + real ((length bytes - 1) div 2) / 24000\<rparr>)"
    unfolding decode_samples_odd [OF odd] by blast
qed

lemma decode_samples_zeros: "decode_samples [0, 0, 0] = Inr [0]" "decode_samples [0, 0] = Inr [0]"
  by code_simp+

text \<open>Payloads of three bytes and of one byte, in a session just opened.\<close>

theorem odd_payload_scheduled_witness:
  "base64ToUint8Array ''AAAA'' = Inr [0, 0, 0] \<and>
   odd (length [0, 0, 0 :: u8]) \<and>
   onmessage (Some ''AAAA'') (1 / 2) opened_session =
     (Scheduled (1 / 2),
      opened_session\<lparr>isSpeaking := True, scheduled := [(1, 1 / 2, [0])],
        nextStartTimeRef := 1 / 2 + 1 / 24000\<rparr>) \<and>
   base64ToUint8Array ''AA=='' = Inr [0] \<and>
   onmessage (Some ''AA=='') (1 / 2) opened_session =
     (Threw NotSupportedError, opened_session\<lparr>isSpeaking := True\<rparr>)"
proof -
  have o3: "odd (length [0, 0, 0 :: u8])" and o1: "odd (length [0 :: u8])"
    by simp_all
  from odd_payload_scheduled [OF opened_session_facts(1) sample_payloads(4) o3, of "1 / 2"]
  have a: "onmessage (Some ''AAAA'') (1 / 2) opened_session =
     (Scheduled (1 / 2),
      opened_session\<lparr>isSpeaking := True, scheduled := [(1, 1 / 2, [0])],
        nextStartTimeRef := 1 / 2 + 1 / 24000\<rparr>)"
    by (simp add: opened_session_facts decode_samples_zeros)
  from odd_payload_scheduled [OF opened_session_facts(1) sample_payloads(5) o1, of "1 / 2"]
  have b: "onmessage (Some ''AA=='') (1 / 2) opened_session =
     (Threw NotSupportedError, opened_session\<lparr>isSpeaking := True\<rparr>)"
    by simp
  from a b o3 sample_payloads(4) sample_payloads(5) show ?thesis
    by (intro conjI)
qed

text \<open>
  C2 as stated: the payload \<open>AAAA\<close> decodes to three bytes; the message is scheduled
  as one sample and moves the cursor from 0 to 1/24000.
\<close>

theorem odd_payload_counterexample:
  "base64ToUint8Array ''AAAA'' = Inr [0, 0, 0] \<and>
   odd (length [0, 0, 0 :: u8]) \<and>
   nextStartTimeRef opened_session = 0 \<and>
   scheduled opened_session = [] \<and>
   fst (onmessage (Some ''AAAA'') 0 opened_session) = Scheduled 0 \<and>
   scheduled (snd (onmessage (Some ''AAAA'') 0 opened_session)) = [(1, 0, [0])] \<and>
   nextStartTimeRef (snd (onmessage (Some ''AAAA'') 0 opened_session)) = 1 / 24000"
proof -
  have two: "2 \<le> length [0, 0, 0 :: u8]" by simp
  from onmessage_schedules [OF opened_session_facts(1) sample_payloads(4) two, of 0]
  have "onmessage (Some ''AAAA'') 0 opened_session =
     (Scheduled 0,
      opened_session\<lparr>isSpeaking := True, scheduled := [(1, 0, [0])],
        nextStartTimeRef := 1 / 24000\<rparr>)"
    by (simp add: opened_session_facts decode_samples_zeros)
  then show ?thesis
    by (simp add: opened_session_facts sample_payloads)
qed

section \<open>Properties of the session controller\<close>












text \<open>
  C3 (as amended). \<open>connect\<close> does not look at the state it is called in. With a key
  and granted media it creates, in every state, one more output context, capture
  pipeline (stream, input context, source and processor node) and connection, adds
  them to those already live and points the refs at them; \<open>isConnected\<close> is left as it
  was. Called once on the first render it leaves exactly one connection.
\<close>

theorem connect_unguarded:
  assumes "apiKey = Some key" and "key \<noteq> []"
  shows "audioContextRef (connect apiKey Granted s) = Some (nextId s) \<and>
     openContexts (connect apiKey Granted s) = insert (nextId s) (openContexts s) \<and>
     liveStreams (connect apiKey Granted s) = insert (nextId s + 1) (liveStreams s) \<and>
     inputContexts (connect apiKey Granted s) = insert (nextId s + 2) (inputContexts s) \<and>
     connectedNodes (connect apiKey Granted s) =
       insert (nextId s + 3) (insert (nextId s + 4) (connectedNodes s)) \<and>
     sessions (connect apiKey Granted s) = sessions s @ [(nextId s + 5, nextId s + 4)] \<and>
     sessionRef (connect apiKey Granted s) = Some (nextId s + 5) \<and>
     isConnected (connect apiKey Granted s) = isConnected s \<and>
     length (sessions (connect apiKey Granted (initial_state video))) = 1"
  using assms by (simp add: connect_def Let_def initial_state_def eval_nat_numeral)

text \<open>A second \<open>connect\<close> in a session just opened.\<close>

theorem connect_unguarded_witness:
  "isConnected opened_session \<and>
   sessions opened_session = [(6, 5)] \<and>
   sessions (connect (Some ''key'') Granted opened_session) = [(6, 5), (13, 12)] \<and>
   openContexts (connect (Some ''key'') Granted opened_session) = {8, 1} \<and>
   isConnected (connect (Some ''key'') Granted opened_session)"
proof -
  have k: "Some ''key'' = Some ''key''" "''key'' \<noteq> []" by simp_all
  have f: "isConnected opened_session" "sessions opened_session = [(6, 5)]"
    "nextId opened_session = 8" "openContexts opened_session = {1}"
    by code_simp+
  from connect_unguarded [OF k, of opened_session] f show ?thesis
    by simp
qed

text \<open>
  C3 as stated: in a session just opened (\<open>isConnected\<close> true, one connection, one
  output context, one stream) a further \<open>connect\<close> is not ignored; afterwards there
  are two connections, two open output contexts and two live streams.
\<close>

theorem connect_while_active_counterexample:
  "isConnected opened_session \<and>
   sessions opened_session = [(6, 5)] \<and>
   openContexts opened_session = {1} \<and>
   liveStreams opened_session = {2} \<and>
   sessions (connect (Some ''key'') Granted opened_session) = [(6, 5), (13, 12)] \<and>
   openContexts (connect (Some ''key'') Granted opened_session) = {1, 8} \<and>
   liveStreams (connect (Some ''key'') Granted opened_session) = {2, 9}"
  by code_simp




section \<open>Properties of the job search\<close>




end
